theory Spec2Isabelle
  imports Main "HOL-Library.Multiset"
begin

section \<open>The operating system as seen by fcmd\<close>

text \<open>
  fcmd.go is a thin layer over the Go standard library.  The calls that reach the file
  system (\<^verbatim>\<open>os.Stat\<close>, \<^verbatim>\<open>ioutil.ReadDir\<close>) are parameters of the model: a function from
  the path to either the error or the value the call returns.  The pure library functions
  (\<^verbatim>\<open>strings.HasPrefix\<close>, \<^verbatim>\<open>path.Join\<close>, \<^verbatim>\<open>os.IsNotExist\<close>) are modelled below.
\<close>

datatype os_error = ErrNotExist | ErrPermission | ErrNotDir | ErrOther

text \<open>\<^verbatim>\<open>os.FileInfo\<close>, restricted to the two methods fcmd.go calls: \<^verbatim>\<open>Name()\<close> and \<^verbatim>\<open>IsDir()\<close>.\<close>

record file_info =
  name :: string
  is_dir :: bool

type_synonym stat_fn = "string \<Rightarrow> os_error + file_info"

type_synonym readdir_fn = "string \<Rightarrow> os_error + file_info list"

text \<open>\<^verbatim>\<open>os.IsNotExist(err)\<close>; a nil error is \<open>None\<close>.\<close>

fun IsNotExist :: "os_error option \<Rightarrow> bool" where
  "IsNotExist None = False"
| "IsNotExist (Some e) = (e = ErrNotExist)"

text \<open>\<^verbatim>\<open>strings.HasPrefix(s, prefix)\<close>:
  \<^verbatim>\<open>len(s) >= len(prefix) && s[0:len(prefix)] == prefix\<close>.\<close>

definition HasPrefix :: "string \<Rightarrow> string \<Rightarrow> bool" where
  "HasPrefix s pre = (length s \<ge> length pre \<and> take (length pre) s = pre)"

subsection \<open>\<^verbatim>\<open>path.Join\<close> and \<^verbatim>\<open>path.Clean\<close>\<close>

text \<open>
  \<^verbatim>\<open>path.Clean\<close> reads the path one slash-separated element at a time and writes the
  cleaned elements to a buffer; \<open>dotdot\<close> marks how much of the buffer a \<^verbatim>\<open>..\<close> element may
  not remove.  The model keeps the buffer as the list of the elements written so far and
  \<open>dotdot\<close> as a number of elements.
\<close>

fun split_slash :: "string \<Rightarrow> string list" where
  "split_slash [] = [[]]"
| "split_slash (c # cs) =
     (if c = CHR ''/'' then [] # split_slash cs
      else (case split_slash cs of
              [] \<Rightarrow> [[c]]
            | e # es \<Rightarrow> (c # e) # es))"

fun join_slash :: "string list \<Rightarrow> string" where
  "join_slash [] = []"
| "join_slash [e] = e"
| "join_slash (e # es) = e @ ''/'' @ join_slash es"

definition clean_step :: "bool \<Rightarrow> string list \<times> nat \<Rightarrow> string \<Rightarrow> string list \<times> nat" where
  "clean_step rooted st elem =
     (case st of (out, dotdot) \<Rightarrow>
        if elem = [] then (out, dotdot)
        else if elem = ''.'' then (out, dotdot)
        else if elem = ''..'' then
          (if length out > dotdot then (butlast out, dotdot)
           else if \<not> rooted then (out @ [''..''], Suc (length out))
           else (out, dotdot))
        else (out @ [elem], dotdot))"

definition Clean :: "string \<Rightarrow> string" where
  "Clean path =
     (if path = [] then ''.''
      else
        let rooted = (hd path = CHR ''/'');
            out = fst (foldl (clean_step rooted) ([], 0) (split_slash path));
            s = (if rooted then ''/'' else []) @ join_slash out
        in if s = [] then ''.'' else s)"

text \<open>\<^verbatim>\<open>path.Join(a, b)\<close>: the elements from the first non-empty one on are joined by a
  slash and the result is cleaned; when both are empty the result is the empty string.\<close>

definition Join :: "string \<Rightarrow> string \<Rightarrow> string" where
  "Join a b =
     (if a \<noteq> [] then Clean (a @ ''/'' @ b)
      else if b \<noteq> [] then Clean b
      else [])"

section \<open>fcmd.go\<close>

text \<open>\<^verbatim>\<open>func IsExist(target string) bool\<close>\<close>

definition IsExist :: "stat_fn \<Rightarrow> string \<Rightarrow> bool" where
  "IsExist stat target =
     (let err = (case stat target of Inl e \<Rightarrow> Some e | Inr _ \<Rightarrow> None)
      in IsNotExist err)"

text \<open>\<^verbatim>\<open>func IsDir(target string) bool\<close>\<close>

definition IsDir :: "stat_fn \<Rightarrow> string \<Rightarrow> bool" where
  "IsDir stat target =
     (case stat target of Inl err \<Rightarrow> False | Inr st \<Rightarrow> is_dir st)"

text \<open>\<^verbatim>\<open>func IsHidden(target string) bool\<close>\<close>

definition IsHidden :: "string \<Rightarrow> bool" where
  "IsHidden target = HasPrefix target ''.''"

text \<open>\<^verbatim>\<open>func Ls(target string) (dirs, files []string)\<close>.  \<open>ls_loop\<close> is the \<^verbatim>\<open>range\<close> loop
  over the entries, with the two named results as accumulators.\<close>

fun ls_loop :: "file_info list \<Rightarrow> string list \<Rightarrow> string list \<Rightarrow> string list \<times> string list" where
  "ls_loop [] dirs files = (dirs, files)"
| "ls_loop (element # rest) dirs files =
     (if IsHidden (name element) then ls_loop rest dirs files
      else if is_dir element then ls_loop rest (dirs @ [name element]) files
      else ls_loop rest dirs (files @ [name element]))"

definition Ls :: "readdir_fn \<Rightarrow> string \<Rightarrow> string list \<times> string list" where
  "Ls readDir target =
     (case readDir target of
        Inl err \<Rightarrow> ([], [])
      | Inr directory \<Rightarrow> ls_loop directory [] [])"

text \<open>
  \<^verbatim>\<open>func Explore(root string) (dirs, files []string)\<close>.  Go puts no bound on the recursion
  and the walk of a tree with a cycle never returns, so the model carries the number of
  nested calls it may still make: \<open>None\<close> is a call that does not return within them.
  \<open>append_all\<close> is a loop that appends each element of a slice to an accumulator;
  \<open>explore_loop\<close> is the loop over \<^verbatim>\<open>dirList\<close>.
\<close>

fun append_all :: "string list \<Rightarrow> string list \<Rightarrow> string list" where
  "append_all acc [] = acc"
| "append_all acc (x # xs) = append_all (acc @ [x]) xs"

fun Explore :: "nat \<Rightarrow> readdir_fn \<Rightarrow> string \<Rightarrow> (string list \<times> string list) option"
  and explore_loop :: "nat \<Rightarrow> readdir_fn \<Rightarrow> string \<Rightarrow> string list \<Rightarrow> string list \<Rightarrow> string list
        \<Rightarrow> (string list \<times> string list) option" where
  "Explore 0 readDir root = None"
| "Explore (Suc depth) readDir root =
     (case Ls readDir root of
        (dirList, fileList) \<Rightarrow>
          explore_loop depth readDir root dirList [] (append_all [] fileList))"
| "explore_loop depth readDir root [] dirs files = Some (dirs, files)"
| "explore_loop depth readDir root (dir # rest) dirs files =
     (let subRoot = Join root dir in
      case Explore depth readDir subRoot of
        None \<Rightarrow> None
      | Some (subDirs, subFiles) \<Rightarrow>
          explore_loop depth readDir root rest
            (append_all (dirs @ [subRoot]) subDirs) (append_all files subFiles))"

section \<open>Example file systems\<close>

text \<open>A \<^verbatim>\<open>stat\<close> that knows one regular file and one unreachable path.\<close>

definition stat_example :: stat_fn where
  "stat_example p =
     (if p = ''notes.txt'' then Inr \<lparr>name = ''notes.txt'', is_dir = False\<rparr>
      else if p = ''secret'' then Inl ErrPermission
      else Inl ErrNotExist)"

text \<open>The tree of the specification's example, seen from the working directory:
  \<^verbatim>\<open>a/\<close>, \<^verbatim>\<open>a/b/\<close>, \<^verbatim>\<open>a/f1\<close>, \<^verbatim>\<open>a/b/f2\<close> and the hidden \<^verbatim>\<open>a/.hidden\<close>.\<close>

definition spec_tree :: readdir_fn where
  "spec_tree p =
     (if p = ''.'' then Inr [\<lparr>name = ''a'', is_dir = True\<rparr>]
      else if p = ''a'' then
        Inr [\<lparr>name = ''.hidden'', is_dir = False\<rparr>,
             \<lparr>name = ''b'', is_dir = True\<rparr>,
             \<lparr>name = ''f1'', is_dir = False\<rparr>]
      else if p = ''a/b'' then Inr [\<lparr>name = ''f2'', is_dir = False\<rparr>]
      else if p = ''a/f1'' \<or> p = ''a/.hidden'' \<or> p = ''a/b/f2'' then Inl ErrNotDir
      else Inl ErrNotExist)"

text \<open>The same tree with the entries of \<^verbatim>\<open>a\<close> read in another order.\<close>

definition spec_tree_reordered :: readdir_fn where
  "spec_tree_reordered p =
     (if p = ''.'' then Inr [\<lparr>name = ''a'', is_dir = True\<rparr>]
      else if p = ''a'' then
        Inr [\<lparr>name = ''f1'', is_dir = False\<rparr>,
             \<lparr>name = ''b'', is_dir = True\<rparr>,
             \<lparr>name = ''.hidden'', is_dir = False\<rparr>]
      else if p = ''a/b'' then Inr [\<lparr>name = ''f2'', is_dir = False\<rparr>]
      else if p = ''a/f1'' \<or> p = ''a/.hidden'' \<or> p = ''a/b/f2'' then Inl ErrNotDir
      else Inl ErrNotExist)"

text \<open>The height of each directory of \<open>spec_tree\<close>: the number of levels of
  subdirectories below it.\<close>

definition spec_tree_height :: "string \<Rightarrow> nat" where
  "spec_tree_height p = (if p = ''.'' then 2 else if p = ''a'' then 1 else 0)"

text \<open>A tree with two sibling directories and a file named \<^verbatim>\<open>f\<close> at three places:
  \<^verbatim>\<open>f\<close>, \<^verbatim>\<open>x/f\<close>, \<^verbatim>\<open>x/z/g\<close>, \<^verbatim>\<open>y/f\<close>.\<close>

definition sibling_tree :: readdir_fn where
  "sibling_tree p =
     (if p = ''.'' then
        Inr [\<lparr>name = ''f'', is_dir = False\<rparr>,
             \<lparr>name = ''x'', is_dir = True\<rparr>,
             \<lparr>name = ''y'', is_dir = True\<rparr>]
      else if p = ''x'' then
        Inr [\<lparr>name = ''f'', is_dir = False\<rparr>, \<lparr>name = ''z'', is_dir = True\<rparr>]
      else if p = ''x/z'' then Inr [\<lparr>name = ''g'', is_dir = False\<rparr>]
      else if p = ''y'' then Inr [\<lparr>name = ''f'', is_dir = False\<rparr>]
      else Inl ErrNotExist)"

text \<open>A working directory with a hidden directory \<^verbatim>\<open>.git\<close> that has files and a
  subdirectory of its own, and the same working directory where nothing below a hidden
  name can be read.\<close>

definition git_tree :: readdir_fn where
  "git_tree p =
     (if p = ''.'' then
        Inr [\<lparr>name = ''.git'', is_dir = True\<rparr>,
             \<lparr>name = ''README'', is_dir = False\<rparr>,
             \<lparr>name = ''src'', is_dir = True\<rparr>]
      else if p = ''.git'' then
        Inr [\<lparr>name = ''config'', is_dir = False\<rparr>, \<lparr>name = ''objects'', is_dir = True\<rparr>]
      else if p = ''.git/objects'' then Inr [\<lparr>name = ''pack'', is_dir = False\<rparr>]
      else if p = ''src'' then Inr [\<lparr>name = ''main.go'', is_dir = False\<rparr>]
      else Inl ErrNotExist)"

definition git_tree_pruned :: readdir_fn where
  "git_tree_pruned p =
     (if p = ''.'' then
        Inr [\<lparr>name = ''.git'', is_dir = True\<rparr>,
             \<lparr>name = ''README'', is_dir = False\<rparr>,
             \<lparr>name = ''src'', is_dir = True\<rparr>]
      else if p = ''src'' then Inr [\<lparr>name = ''main.go'', is_dir = False\<rparr>]
      else Inl ErrNotExist)"

section \<open>Notions the properties are stated with\<close>

text \<open>\<open>tree_height_le n readDir p\<close>: below \<open>p\<close> there are at most \<open>n\<close> levels of directories
  that \<open>Ls\<close> lists.\<close>

primrec tree_height_le :: "nat \<Rightarrow> readdir_fn \<Rightarrow> string \<Rightarrow> bool" where
  "tree_height_le 0 readDir p = (fst (Ls readDir p) = [])"
| "tree_height_le (Suc n) readDir p =
     list_all (\<lambda>d. tree_height_le n readDir (Join p d)) (fst (Ls readDir p))"

text \<open>\<open>emitted_before a b out\<close>: \<open>b\<close> stands in the output \<open>out\<close> somewhere after the first
  \<open>a\<close>.\<close>

definition emitted_before :: "string \<Rightarrow> string \<Rightarrow> string list \<Rightarrow> bool" where
  "emitted_before a b out = (b \<in> set (drop 1 (dropWhile (\<lambda>x. x \<noteq> a) out)))"

text \<open>The names a directory read can return: a file name is not empty and holds no slash,
  and the entries \<^verbatim>\<open>.\<close> and \<^verbatim>\<open>..\<close> are not returned.\<close>

definition valid_name :: "string \<Rightarrow> bool" where
  "valid_name n = (n \<noteq> [] \<and> CHR ''/'' \<notin> set n \<and> n \<noteq> ''.'' \<and> n \<noteq> ''..'')"

text \<open>The last slash-separated element of a path: for a path that \<open>Explore\<close> returns,
  the name of the entry itself.\<close>

definition last_element :: "string \<Rightarrow> string" where
  "last_element p = last (split_slash p)"

text \<open>The directories \<open>Explore\<close> calls \<open>Ls\<close> on: the root, and \<^verbatim>\<open>subRoot\<close> for every
  name in the \<^verbatim>\<open>dirList\<close> of a directory it calls \<open>Ls\<close> on.\<close>

inductive_set visited :: "readdir_fn \<Rightarrow> string \<Rightarrow> string set" for readDir root where
  visit_root: "root \<in> visited readDir root"
| visit_sub: "p \<in> visited readDir root \<Longrightarrow> dir \<in> set (fst (Ls readDir p)) \<Longrightarrow>
     Join p dir \<in> visited readDir root"

section \<open>The loops in closed form\<close>

lemma append_all_eq: "append_all acc xs = acc @ xs"
  by (induction xs arbitrary: acc) simp_all

lemma ls_loop_eq:
  "ls_loop directory dirs files =
     (dirs @ map name (filter (\<lambda>e. \<not> IsHidden (name e) \<and> is_dir e) directory),
      files @ map name (filter (\<lambda>e. \<not> IsHidden (name e) \<and> \<not> is_dir e) directory))"
  by (induction directory arbitrary: dirs files) simp_all

lemma concat_map_nth_split:
  "i < length xs \<Longrightarrow>
   concat (map f xs) = concat (map f (take i xs)) @ f (xs ! i) @ concat (map f (drop (Suc i) xs))"
proof (induction xs arbitrary: i)
  case Nil
  then show ?case by simp
next
  case (Cons x xs)
  then show ?case by (cases i) simp_all
qed

lemma explore_loop_None_iff:
  "explore_loop k rd root ds dirs files = None \<longleftrightarrow> (\<exists>d \<in> set ds. Explore k rd (Join root d) = None)"
  by (induction ds arbitrary: dirs files) (auto simp: Let_def split: option.splits)

lemma explore_loop_Some:
  "explore_loop k rd root ds dirs files = Some (D, F) \<Longrightarrow>
   D = dirs @ concat (map (\<lambda>d. Join root d # fst (the (Explore k rd (Join root d)))) ds) \<and>
   F = files @ concat (map (\<lambda>d. snd (the (Explore k rd (Join root d)))) ds)"
proof (induction ds arbitrary: dirs files)
  case Nil
  then show ?case by simp
next
  case (Cons d ds)
  from Cons.prems obtain a b where
    sub: "Explore k rd (Join root d) = Some (a, b)" and
    rest: "explore_loop k rd root ds (dirs @ Join root d # a) (files @ b) = Some (D, F)"
    by (auto simp: Let_def append_all_eq split: option.splits)
  from Cons.IH [OF rest] sub show ?case by simp
qed

lemma Explore_Suc_None_iff:
  "Explore (Suc k) rd root = None \<longleftrightarrow> (\<exists>d \<in> set (fst (Ls rd root)). Explore k rd (Join root d) = None)"
  by (simp add: explore_loop_None_iff split: prod.splits)

lemma Explore_Suc_Some:
  assumes "Explore (Suc k) rd root = Some (D, F)"
  shows "D = concat (map (\<lambda>d. Join root d # fst (the (Explore k rd (Join root d)))) (fst (Ls rd root)))"
    and "F = snd (Ls rd root) @ concat (map (\<lambda>d. snd (the (Explore k rd (Join root d)))) (fst (Ls rd root)))"
  using assms explore_loop_Some [of k rd root "fst (Ls rd root)" "[]" "snd (Ls rd root)" D F]
  by (simp_all add: append_all_eq split: prod.splits)

lemma Explore_Suc_sets:
  assumes "Explore (Suc k) rd root = Some (D, F)"
  shows "set D = (\<Union>d \<in> set (fst (Ls rd root)). insert (Join root d) (set (fst (the (Explore k rd (Join root d))))))"
    and "set F = set (snd (Ls rd root)) \<union> (\<Union>d \<in> set (fst (Ls rd root)). set (snd (the (Explore k rd (Join root d)))))"
  using Explore_Suc_Some [OF assms] by auto

lemma Explore_Suc_eq:
  "Explore (Suc k) rd root =
     (if \<exists>d \<in> set (fst (Ls rd root)). Explore k rd (Join root d) = None then None
      else Some (concat (map (\<lambda>d. Join root d # fst (the (Explore k rd (Join root d)))) (fst (Ls rd root))),
                 snd (Ls rd root) @
                   concat (map (\<lambda>d. snd (the (Explore k rd (Join root d)))) (fst (Ls rd root)))))"
proof (cases "Explore (Suc k) rd root")
  case None
  then show ?thesis using Explore_Suc_None_iff [of k rd root] by simp
next
  case (Some r)
  then have "\<not> (\<exists>d \<in> set (fst (Ls rd root)). Explore k rd (Join root d) = None)"
    using Explore_Suc_None_iff [of k rd root] by simp
  moreover obtain D F where "r = (D, F)" by (cases r)
  ultimately show ?thesis
    using Some Explore_Suc_Some [of k rd root D F] by simp
qed

lemma Explore_more_depth:
  "Explore k rd root = Some r \<Longrightarrow> k \<le> k' \<Longrightarrow> Explore k' rd root = Some r"
proof (induction k arbitrary: root r k')
  case 0
  then show ?case by simp
next
  case (Suc k)
  from Suc.prems(2) obtain j where k': "k' = Suc j" and kj: "k \<le> j"
    by (cases k') simp_all
  have sub: "Explore k rd (Join root d) \<noteq> None \<and>
             Explore j rd (Join root d) = Explore k rd (Join root d)"
    if "d \<in> set (fst (Ls rd root))" for d
  proof -
    from Suc.prems(1) that obtain s where s: "Explore k rd (Join root d) = Some s"
      using Explore_Suc_None_iff [of k rd root] by fastforce
    from Suc.IH [OF s kj] s show ?thesis by simp
  qed
  have "Explore (Suc j) rd root = Explore (Suc k) rd root"
    unfolding Explore_Suc_eq [of j] Explore_Suc_eq [of k]
    using sub by (auto intro!: arg_cong [where f = concat] map_cong)
  with Suc.prems(1) k' show ?case by simp
qed

lemma spec_tree_Explore:
  "Explore 3 spec_tree ''.'' = Some ([''a'', ''a/b''], [''f1'', ''f2''])"
  by (simp add: spec_tree_def Ls_def IsHidden_def HasPrefix_def Join_def Clean_def
      clean_step_def numeral_3_eq_3)

lemma Ls_sets_cong:
  assumes "map_sum id mset (rd p) = map_sum id mset (rd' p)"
  shows "set (fst (Ls rd p)) = set (fst (Ls rd' p)) \<and> set (snd (Ls rd p)) = set (snd (Ls rd' p))"
proof (cases "rd p")
  case (Inl e)
  with assms show ?thesis by (cases "rd' p") (simp_all add: Ls_def)
next
  case (Inr es)
  with assms obtain es' where r': "rd' p = Inr es'" and m: "mset es = mset es'"
    by (cases "rd' p") simp_all
  from m have "set es = set es'" by (rule mset_eq_setD)
  with Inr r' show ?thesis by (simp add: Ls_def ls_loop_eq)
qed

section \<open>The last element of a joined path\<close>

lemma split_slash_not_Nil: "split_slash s \<noteq> []"
  by (induction s) (simp_all split: list.splits)

lemma split_slash_no_slash: "CHR ''/'' \<notin> set d \<Longrightarrow> split_slash d = [d]"
  by (induction d) auto

lemma split_slash_append:
  "split_slash (a @ CHR ''/'' # b) = split_slash a @ split_slash b"
proof (induction a)
  case Nil
  show ?case by simp
next
  case (Cons c cs)
  then show ?case
    using split_slash_not_Nil [of cs] by (cases "split_slash cs") simp_all
qed

lemma join_slash_snoc:
  "join_slash (out @ [d]) = (if out = [] then d else join_slash out @ CHR ''/'' # d)"
  by (induction out rule: join_slash.induct) simp_all

lemma last_element_plain: "CHR ''/'' \<notin> set d \<Longrightarrow> last_element d = d"
  by (simp add: last_element_def split_slash_no_slash)

lemma last_element_after_slash:
  "CHR ''/'' \<notin> set d \<Longrightarrow> last_element (a @ CHR ''/'' # d) = d"
  by (simp add: last_element_def split_slash_append split_slash_no_slash)

lemma clean_step_plain:
  "valid_name d \<Longrightarrow> clean_step rooted (out, dotdot) d = (out @ [d], dotdot)"
  by (simp add: clean_step_def valid_name_def)

lemma last_element_rendered:
  assumes "valid_name d"
  shows "last_element ((if rooted then ''/'' else []) @ join_slash (out @ [d])) = d"
proof -
  have ns: "CHR ''/'' \<notin> set d" using assms by (simp add: valid_name_def)
  show ?thesis
  proof (cases "out = []")
    case True
    then show ?thesis
      using last_element_after_slash [OF ns, of "[]"] last_element_plain [OF ns] by simp
  next
    case False
    then show ?thesis
      using last_element_after_slash [OF ns, of "(if rooted then ''/'' else []) @ join_slash out"]
      by (simp add: join_slash_snoc)
  qed
qed

lemma rendered_not_Nil: "d \<noteq> [] \<Longrightarrow> pre @ join_slash (out @ [d]) \<noteq> []"
  by (simp add: join_slash_snoc)

lemma last_element_Clean_snoc:
  assumes "valid_name d" and "split_slash path = es @ [d]" and "path \<noteq> []"
  shows "last_element (Clean path) = d"
proof -
  let ?rooted = "hd path = CHR ''/''"
  obtain out dotdot where st: "foldl (clean_step ?rooted) ([], 0) es = (out, dotdot)"
    by (cases "foldl (clean_step ?rooted) ([], 0) es")
  have "fst (foldl (clean_step ?rooted) ([], 0) (split_slash path)) = out @ [d]"
    using assms(1,2) st by (simp add: clean_step_plain)
  moreover have "d \<noteq> []" using assms(1) by (simp add: valid_name_def)
  ultimately have "Clean path = (if ?rooted then ''/'' else []) @ join_slash (out @ [d])"
    using assms(3) rendered_not_Nil [of d "(if ?rooted then ''/'' else [])" out]
    by (simp add: Clean_def Let_def)
  then show ?thesis using last_element_rendered [OF assms(1)] by simp
qed

lemma last_element_Join:
  assumes "valid_name d"
  shows "last_element (Join root d) = d"
proof -
  have ns: "CHR ''/'' \<notin> set d" and ne: "d \<noteq> []" using assms by (simp_all add: valid_name_def)
  show ?thesis
  proof (cases "root = []")
    case True
    have "last_element (Clean d) = d"
      using last_element_Clean_snoc [OF assms, of d "[]"] ns ne by (simp add: split_slash_no_slash)
    with True ne show ?thesis by (simp add: Join_def)
  next
    case False
    have "split_slash (root @ CHR ''/'' # d) = split_slash root @ [d]"
      using ns by (simp add: split_slash_append split_slash_no_slash)
    from last_element_Clean_snoc [OF assms this] False ne show ?thesis
      by (simp add: Join_def)
  qed
qed

section \<open>What the explorer reads\<close>

lemma Ls_dir_entry:
  assumes "d \<in> set (fst (Ls rd p))"
  shows "\<exists>es e. rd p = Inr es \<and> e \<in> set es \<and> name e = d \<and> \<not> IsHidden d \<and> is_dir e"
  using assms by (cases "rd p") (auto simp: Ls_def ls_loop_eq)

lemma Ls_file_entry:
  assumes "f \<in> set (snd (Ls rd p))"
  shows "\<exists>es e. rd p = Inr es \<and> e \<in> set es \<and> name e = f \<and> \<not> IsHidden f \<and> \<not> is_dir e"
  using assms by (cases "rd p") (auto simp: Ls_def ls_loop_eq)

lemma visited_sub_subset:
  assumes "d \<in> set (fst (Ls rd root))" and "p \<in> visited rd (Join root d)"
  shows "p \<in> visited rd root"
  using assms(2)
proof (induction rule: visited.induct)
  case visit_root
  show ?case using assms(1) by (intro visited.visit_sub visited.visit_root)
next
  case (visit_sub p dir)
  then show ?case by (intro visited.visit_sub)
qed

lemma Explore_files_from_visited:
  "Explore k rd root = Some (D, F) \<Longrightarrow> f \<in> set F \<Longrightarrow>
   \<exists>p \<in> visited rd root. f \<in> set (snd (Ls rd p))"
proof (induction k arbitrary: root D F)
  case 0
  then show ?case by simp
next
  case (Suc k)
  from Suc.prems(2) [unfolded Explore_Suc_sets(2) [OF Suc.prems(1)]]
  consider "f \<in> set (snd (Ls rd root))"
    | d where "d \<in> set (fst (Ls rd root))" "f \<in> set (snd (the (Explore k rd (Join root d))))"
    by auto
  then show ?case
  proof cases
    case 1
    then show ?thesis using visited.visit_root [of root rd] by blast
  next
    case 2
    from Suc.prems(1) 2(1) obtain r where r: "Explore k rd (Join root d) = Some r"
      using Explore_Suc_None_iff [of k rd root] by fastforce
    from Suc.IH [of "Join root d" "fst r" "snd r"] r 2(2)
    obtain p where "p \<in> visited rd (Join root d)" "f \<in> set (snd (Ls rd p))" by auto
    then show ?thesis using visited_sub_subset [OF 2(1)] by blast
  qed
qed

lemma Explore_dirs_visited:
  "Explore k rd root = Some (D, F) \<Longrightarrow> p \<in> set D \<Longrightarrow>
   \<exists>q \<in> visited rd root. \<exists>d \<in> set (fst (Ls rd q)). p = Join q d"
proof (induction k arbitrary: root D F)
  case 0
  then show ?case by simp
next
  case (Suc k)
  from Suc.prems(2) [unfolded Explore_Suc_sets(1) [OF Suc.prems(1)]]
  obtain d where d: "d \<in> set (fst (Ls rd root))"
    and p: "p = Join root d \<or> p \<in> set (fst (the (Explore k rd (Join root d))))"
    by auto
  from p show ?case
  proof
    assume "p = Join root d"
    then show ?thesis using d visited.visit_root [of root rd] by blast
  next
    assume below: "p \<in> set (fst (the (Explore k rd (Join root d))))"
    from Suc.prems(1) d obtain r where r: "Explore k rd (Join root d) = Some r"
      using Explore_Suc_None_iff [of k rd root] by fastforce
    from Suc.IH [of "Join root d" "fst r" "snd r"] r below
    obtain q e where "q \<in> visited rd (Join root d)" "e \<in> set (fst (Ls rd q))" "p = Join q e"
      by auto
    then show ?thesis using visited_sub_subset [OF d] by blast
  qed
qed

lemma Explore_depends_on_visited:
  "(\<And>p. p \<in> visited rd root \<Longrightarrow> rd' p = rd p) \<Longrightarrow> Explore k rd' root = Explore k rd root"
proof (induction k arbitrary: root)
  case 0
  show ?case by simp
next
  case (Suc k)
  have "rd' root = rd root" by (rule Suc.prems) (rule visited.visit_root)
  then have ls: "Ls rd' root = Ls rd root" by (simp add: Ls_def)
  have sub: "Explore k rd' (Join root d) = Explore k rd (Join root d)"
    if "d \<in> set (fst (Ls rd root))" for d
    using Suc.prems visited_sub_subset [OF that] by (intro Suc.IH) blast
  have none: "(\<exists>d \<in> set (fst (Ls rd root)). Explore k rd' (Join root d) = None) =
              (\<exists>d \<in> set (fst (Ls rd root)). Explore k rd (Join root d) = None)"
    using sub by auto
  have ds: "map (\<lambda>d. Join root d # fst (the (Explore k rd' (Join root d)))) (fst (Ls rd root)) =
            map (\<lambda>d. Join root d # fst (the (Explore k rd (Join root d)))) (fst (Ls rd root))"
    using sub by (intro map_cong) simp_all
  have fs: "map (\<lambda>d. snd (the (Explore k rd' (Join root d)))) (fst (Ls rd root)) =
            map (\<lambda>d. snd (the (Explore k rd (Join root d)))) (fst (Ls rd root))"
    using sub by (intro map_cong) simp_all
  show ?case
    by (simp only: Explore_Suc_eq [of k rd'] Explore_Suc_eq [of k rd] ls none ds fs)
qed

lemma git_tree_Explore:
  "Explore 2 git_tree ''.'' = Some ([''src''], [''README'', ''main.go''])"
  by (simp add: git_tree_def Ls_def IsHidden_def HasPrefix_def Join_def Clean_def
      clean_step_def numeral_2_eq_2)

lemma git_tree_visited: "p \<in> visited git_tree ''.'' \<Longrightarrow> p = ''.'' \<or> p = ''src''"
  by (induction rule: visited.induct)
    (auto simp: git_tree_def Ls_def IsHidden_def HasPrefix_def Join_def Clean_def clean_step_def
      split: if_splits)

section \<open>The hidden-name predicate and the existence check\<close>

text \<open>
  C8.  \<open>IsHidden\<close> is a total function of the name alone, and it holds exactly of the names
  whose first character is the dot.
\<close>

theorem IsHidden_iff_starts_with_dot:
  "IsHidden target \<longleftrightarrow> (\<exists>rest. target = CHR ''.'' # rest)"
  by (cases target) (auto simp: IsHidden_def HasPrefix_def)

text \<open>
  C10.  \<open>IsExist\<close> answers true exactly when \<^verbatim>\<open>stat\<close> fails with the not-exist error; for a
  target that \<^verbatim>\<open>stat\<close> finds it answers false.
\<close>

theorem IsExist_true_iff_stat_not_exist:
  "(IsExist stat target \<longleftrightarrow> stat target = Inl ErrNotExist) \<and>
   (\<forall>info. stat target = Inr info \<longrightarrow> \<not> IsExist stat target)"
  by (auto simp: IsExist_def split: sum.splits)

theorem IsExist_true_iff_stat_not_exist_witness:
  "stat_example ''notes.txt'' = Inr \<lparr>name = ''notes.txt'', is_dir = False\<rparr> \<and>
   \<not> IsExist stat_example ''notes.txt'' \<and>
   IsExist stat_example ''missing'' \<and>
   \<not> IsExist stat_example ''secret''"
  using IsExist_true_iff_stat_not_exist [of stat_example "''notes.txt''"]
    IsExist_true_iff_stat_not_exist [of stat_example "''missing''"]
    IsExist_true_iff_stat_not_exist [of stat_example "''secret''"]
  by (simp add: stat_example_def)

section \<open>The directory lister\<close>

text \<open>
  C3.  When reading the target fails, whatever the error, \<open>Ls\<close> returns two empty lists,
  which is also what it returns for a directory without entries; \<open>Explore\<close> on such a
  root returns two empty lists as well.
\<close>

theorem Ls_Explore_unreadable_empty:
  assumes "readDir target = Inl err"
  shows "Ls readDir target = ([], []) \<and>
         Explore (Suc depth) readDir target = Some ([], []) \<and>
         (\<forall>readDir'. readDir' target = Inr [] \<longrightarrow> Ls readDir' target = Ls readDir target)"
  using assms by (simp add: Ls_def)

theorem Ls_Explore_unreadable_empty_witness:
  "spec_tree ''nowhere'' = Inl ErrNotExist \<and>
   Ls spec_tree ''nowhere'' = ([], []) \<and>
   Explore (Suc 0) spec_tree ''nowhere'' = Some ([], []) \<and>
   spec_tree ''a/f1'' = Inl ErrNotDir \<and>
   Ls spec_tree ''a/f1'' = ([], []) \<and>
   Explore (Suc 0) spec_tree ''a/f1'' = Some ([], [])"
proof -
  have a: "spec_tree ''nowhere'' = Inl ErrNotExist" by (simp add: spec_tree_def)
  have b: "spec_tree ''a/f1'' = Inl ErrNotDir" by (simp add: spec_tree_def)
  show ?thesis
    using a b Ls_Explore_unreadable_empty [of spec_tree "''nowhere''" ErrNotExist 0]
      Ls_Explore_unreadable_empty [of spec_tree "''a/f1''" ErrNotDir 0]
    by simp
qed

text \<open>
  C4.  For a readable directory without hidden entries, \<open>Ls\<close> returns the names of the
  directories among the entries first and the names of the other entries second, each
  entry once (the two lists together hold the entries' names with their multiplicities),
  and the two lengths add up to the number of entries.
\<close>

theorem Ls_without_hidden_lists_every_child:
  assumes "readDir target = Inr directory"
    and "\<forall>e \<in> set directory. \<not> IsHidden (name e)"
    and "Ls readDir target = (dirs, files)"
  shows "dirs = map name (filter is_dir directory) \<and>
         files = map name (filter (\<lambda>e. \<not> is_dir e) directory) \<and>
         mset (dirs @ files) = mset (map name directory) \<and>
         length dirs + length files = length directory"
proof -
  have d: "filter (\<lambda>e. \<not> IsHidden (name e) \<and> is_dir e) directory = filter is_dir directory"
    using assms(2) by (intro filter_cong) auto
  have f: "filter (\<lambda>e. \<not> IsHidden (name e) \<and> \<not> is_dir e) directory
             = filter (\<lambda>e. \<not> is_dir e) directory"
    using assms(2) by (intro filter_cong) auto
  have dirs: "dirs = map name (filter is_dir directory)"
    and files: "files = map name (filter (\<lambda>e. \<not> is_dir e) directory)"
    using assms(1,3) by (simp_all add: Ls_def ls_loop_eq d f)
  have "mset (filter is_dir directory) + mset (filter (\<lambda>e. \<not> is_dir e) directory) = mset directory"
    by simp
  then have m: "mset (dirs @ files) = mset (map name directory)"
    unfolding dirs files by (metis image_mset_union mset_append mset_map)
  have "length dirs + length files = length directory"
    unfolding dirs files by (simp add: sum_length_filter_compl)
  with dirs files m show ?thesis by simp
qed

theorem Ls_without_hidden_lists_every_child_witness:
  "Ls spec_tree ''a/b'' = ([], [''f2'']) \<and> Ls spec_tree ''.'' = ([''a''], [])"
  using Ls_without_hidden_lists_every_child [of spec_tree "''a/b''" "[\<lparr>name = ''f2'', is_dir = False\<rparr>]"
       "fst (Ls spec_tree ''a/b'')" "snd (Ls spec_tree ''a/b'')"]
    Ls_without_hidden_lists_every_child [of spec_tree "''.''" "[\<lparr>name = ''a'', is_dir = True\<rparr>]"
       "fst (Ls spec_tree ''.'')" "snd (Ls spec_tree ''.'')"]
  by (simp add: spec_tree_def IsHidden_def HasPrefix_def prod_eq_iff)

section \<open>The tree explorer\<close>

text \<open>
  C6.  The output follows the traversal, one subdirectory at a time.  When \<open>Explore\<close>
  returns, each listed subdirectory has been explored with a result \<open>sub\<close>; the file output
  is the files of this level followed by the files found below each subdirectory in listing
  order, and the directory output is, for each subdirectory in listing order, its joined
  path followed at once by the directories found below it.  So the path of each listed
  subdirectory stands right before everything found below it and after everything that
  belongs to the subdirectories listed earlier: a directory precedes what is inside it,
  not what is inside an earlier sibling.
\<close>

theorem Explore_traversal_order:
  assumes "Explore (Suc depth) readDir root = Some (dirs, files)"
    and "Ls readDir root = (dirList, fileList)"
  shows "\<exists>subs. length subs = length dirList \<and>
           (\<forall>i < length dirList. Explore depth readDir (Join root (dirList ! i)) = Some (subs ! i)) \<and>
           dirs = concat (map (\<lambda>(dir, sub). Join root dir # fst sub) (zip dirList subs)) \<and>
           files = fileList @ concat (map snd subs) \<and>
           (\<forall>i < length dirList. \<exists>earlier later.
              dirs = earlier @ (Join root (dirList ! i) # fst (subs ! i)) @ later \<and>
              earlier = concat (map (\<lambda>(dir, sub). Join root dir # fst sub) (take i (zip dirList subs))))"
proof -
  let ?sub = "\<lambda>d. the (Explore depth readDir (Join root d))"
  let ?subs = "map ?sub dirList"
  let ?block = "\<lambda>(dir, sub). Join root dir # fst sub"
  let ?zs = "zip dirList ?subs"
  have some: "Explore depth readDir (Join root d) = Some (?sub d)" if "d \<in> set dirList" for d
    using assms Explore_Suc_None_iff [of depth readDir root] that by fastforce
  have z: "?zs = map (\<lambda>d. (d, ?sub d)) dirList"
    by (induction dirList) simp_all
  have ds: "dirs = concat (map ?block ?zs)"
    using Explore_Suc_Some(1) [OF assms(1)] assms(2) by (simp add: z comp_def)
  have fs: "files = fileList @ concat (map snd ?subs)"
    using Explore_Suc_Some(2) [OF assms(1)] assms(2) by (simp add: comp_def)
  have subs: "\<forall>i < length dirList. Explore depth readDir (Join root (dirList ! i)) = Some (?subs ! i)"
    using some by simp
  have pos: "\<exists>earlier later.
      dirs = earlier @ (Join root (dirList ! i) # fst (?subs ! i)) @ later \<and>
      earlier = concat (map ?block (take i ?zs))" if i: "i < length dirList" for i
  proof -
    have len: "i < length ?zs" using i by simp
    have blk: "?block (?zs ! i) = Join root (dirList ! i) # fst (?subs ! i)"
      using i by simp
    have "dirs = concat (map ?block (take i ?zs)) @ ?block (?zs ! i)
                   @ concat (map ?block (drop (Suc i) ?zs))"
      unfolding ds by (rule concat_map_nth_split [OF len])
    then have "dirs = concat (map ?block (take i ?zs))
                   @ (Join root (dirList ! i) # fst (?subs ! i))
                   @ concat (map ?block (drop (Suc i) ?zs))"
      unfolding blk .
    then show ?thesis by blast
  qed
  show ?thesis
    by (rule exI [of _ ?subs]) (use ds fs subs pos in simp)
qed

theorem Explore_traversal_order_witness:
  "Explore (Suc 2) sibling_tree ''.'' = Some ([''x'', ''x/z'', ''y''], [''f'', ''f'', ''g'', ''f'']) \<and>
   Ls sibling_tree ''.'' = ([''x'', ''y''], [''f'']) \<and>
   (\<exists>subs. length subs = length [''x'', ''y''] \<and>
      (\<forall>i < length [''x'', ''y''].
          Explore 2 sibling_tree (Join ''.'' ([''x'', ''y''] ! i)) = Some (subs ! i)) \<and>
      [''x'', ''x/z'', ''y''] =
        concat (map (\<lambda>(dir, sub). Join ''.'' dir # fst sub) (zip [''x'', ''y''] subs)) \<and>
      [''f'', ''f'', ''g'', ''f''] = [''f''] @ concat (map snd subs))"
proof -
  have a: "Explore (Suc 2) sibling_tree ''.'' = Some ([''x'', ''x/z'', ''y''], [''f'', ''f'', ''g'', ''f''])"
    by (simp add: sibling_tree_def Ls_def IsHidden_def HasPrefix_def Join_def Clean_def
        clean_step_def numeral_2_eq_2)
  have b: "Ls sibling_tree ''.'' = ([''x'', ''y''], [''f''])"
    by (simp add: sibling_tree_def Ls_def IsHidden_def HasPrefix_def)
  from Explore_traversal_order [OF a b] a b show ?thesis by blast
qed

text \<open>
  The directories listed at one level are not all emitted before what lies inside them:
  in the walk of \<open>sibling_tree\<close> the path \<^verbatim>\<open>x/z\<close>, found inside the first subdirectory \<^verbatim>\<open>x\<close>,
  is emitted before the second subdirectory \<^verbatim>\<open>y\<close> of the root, and \<^verbatim>\<open>y\<close> is not emitted before
  \<^verbatim>\<open>x/z\<close>.
\<close>

theorem Explore_sibling_after_nested_counterexample:
  "Explore 3 sibling_tree ''.'' = Some ([''x'', ''x/z'', ''y''], [''f'', ''f'', ''g'', ''f'']) \<and>
   Ls sibling_tree ''.'' = ([''x'', ''y''], [''f'']) \<and>
   Explore 2 sibling_tree (Join ''.'' ''x'') = Some ([''x/z''], [''f'', ''g'']) \<and>
   Join ''.'' ''y'' = ''y'' \<and>
   emitted_before ''x/z'' (Join ''.'' ''y'') [''x'', ''x/z'', ''y''] \<and>
   \<not> emitted_before (Join ''.'' ''y'') ''x/z'' [''x'', ''x/z'', ''y'']"
  by (simp add: sibling_tree_def Ls_def IsHidden_def HasPrefix_def Join_def Clean_def
      clean_step_def emitted_before_def numeral_3_eq_3 numeral_2_eq_2)

text \<open>
  C7.  Two walks of the same root over trees that have the same entries in every
  directory, read in any order (and the same errors), return the same sets of directory
  paths and of file paths: when one returns, so does the other.
\<close>

theorem Explore_twice_same_members:
  assumes same: "\<And>p. map_sum id mset (readDir p) = map_sum id mset (readDir' p)"
    and first: "Explore depth readDir root = Some (dirs, files)"
  shows "\<exists>dirs' files'. Explore depth readDir' root = Some (dirs', files') \<and>
           set dirs' = set dirs \<and> set files' = set files"
  using first
proof (induction depth arbitrary: root dirs files)
  case 0
  then show ?case by simp
next
  case (Suc depth)
  have ls: "set (fst (Ls readDir root)) = set (fst (Ls readDir' root))"
    "set (snd (Ls readDir root)) = set (snd (Ls readDir' root))"
    using Ls_sets_cong [of readDir root readDir', OF same] by simp_all
  have sub: "\<exists>D' F'. Explore depth readDir' (Join root d) = Some (D', F') \<and>
               set D' = set (fst (the (Explore depth readDir (Join root d)))) \<and>
               set F' = set (snd (the (Explore depth readDir (Join root d))))"
    if "d \<in> set (fst (Ls readDir root))" for d
  proof -
    from Suc.prems that obtain r where "Explore depth readDir (Join root d) = Some r"
      using Explore_Suc_None_iff [of depth readDir root] by fastforce
    then show ?thesis using Suc.IH [of "Join root d" "fst r" "snd r"] by simp
  qed
  then have "Explore (Suc depth) readDir' root \<noteq> None"
    unfolding Explore_Suc_None_iff ls(1) [symmetric] by fastforce
  then obtain D' F' where r': "Explore (Suc depth) readDir' root = Some (D', F')" by auto
  have "set D' = set dirs"
    unfolding Explore_Suc_sets(1) [OF r'] Explore_Suc_sets(1) [OF Suc.prems] ls(1) [symmetric]
    using sub by fastforce
  moreover have "set F' = set files"
    unfolding Explore_Suc_sets(2) [OF r'] Explore_Suc_sets(2) [OF Suc.prems] ls [symmetric]
    using sub by fastforce
  ultimately show ?case using r' by simp
qed

theorem Explore_twice_same_members_witness:
  "Explore 3 spec_tree ''.'' = Some ([''a'', ''a/b''], [''f1'', ''f2'']) \<and>
   (\<exists>dirs' files'. Explore 3 spec_tree_reordered ''.'' = Some (dirs', files') \<and>
      set dirs' = set [''a'', ''a/b''] \<and> set files' = set [''f1'', ''f2''])"
proof -
  have same: "map_sum id mset (spec_tree p) = map_sum id mset (spec_tree_reordered p)" for p
    by (simp add: spec_tree_def spec_tree_reordered_def)
  from Explore_twice_same_members [of spec_tree spec_tree_reordered, OF same spec_tree_Explore] spec_tree_Explore
  show ?thesis by simp
qed

lemma Explore_height:
  "(Explore (Suc n) rd root \<noteq> None) = tree_height_le n rd root"
proof (induction n arbitrary: root)
  case 0
  show ?case unfolding Explore_Suc_None_iff by (cases "fst (Ls rd root)") auto
next
  case (Suc n)
  show ?case
    unfolding Explore_Suc_None_iff [of "Suc n"] using Suc.IH
    by (simp add: list_all_iff)
qed

lemma Explore_ranked:
  assumes "\<And>p d. d \<in> set (fst (Ls rd p)) \<Longrightarrow> height (Join p d) < height p"
  shows "height root < k \<Longrightarrow> Explore k rd root \<noteq> None"
proof (induction k arbitrary: root)
  case 0
  then show ?case by simp
next
  case (Suc k)
  have "Explore k rd (Join root d) \<noteq> None" if "d \<in> set (fst (Ls rd root))" for d
    using assms [OF that] Suc.prems by (intro Suc.IH) simp
  then show ?case unfolding Explore_Suc_None_iff by blast
qed

text \<open>
  C9.  On a tree in which every listed subdirectory has a smaller height than its parent
  (a finite tree without cycles), \<open>Explore\<close> returns, and returns the same result with
  any number of nested calls above the height of the root; for any tree, it returns within
  \<open>n + 1\<close> nested calls exactly when at most \<open>n\<close> levels of directories lie below the root.
\<close>

theorem Explore_terminates_within_tree_height:
  assumes "\<And>p d. d \<in> set (fst (Ls readDir p)) \<Longrightarrow> height (Join p d) < height p"
  shows "(\<exists>result. \<forall>depth > height root. Explore depth readDir root = Some result) \<and>
         (\<forall>n. (\<exists>result. Explore (Suc n) readDir root = Some result) = tree_height_le n readDir root)"
proof -
  from Explore_ranked [of readDir height root "Suc (height root)", OF assms]
  obtain result where r: "Explore (Suc (height root)) readDir root = Some result"
    by auto
  have "\<forall>depth > height root. Explore depth readDir root = Some result"
    using Explore_more_depth [OF r] by (simp add: Suc_le_eq)
  then show ?thesis using Explore_height [of _ readDir root] by auto
qed

theorem Explore_terminates_within_tree_height_witness:
  "Explore 3 spec_tree ''.'' = Some ([''a'', ''a/b''], [''f1'', ''f2'']) \<and>
   Explore 2 spec_tree ''.'' = None \<and>
   tree_height_le 2 spec_tree ''.'' \<and> \<not> tree_height_le 1 spec_tree ''.''"
proof -
  have rank: "spec_tree_height (Join p d) < spec_tree_height p"
    if "d \<in> set (fst (Ls spec_tree p))" for p d
    using that
    by (auto simp: spec_tree_def spec_tree_height_def Ls_def IsHidden_def HasPrefix_def Join_def
        Clean_def clean_step_def split: if_splits)
  have e2: "Explore 2 spec_tree ''.'' = None"
    by (simp add: spec_tree_def Ls_def IsHidden_def HasPrefix_def Join_def Clean_def
        clean_step_def numeral_2_eq_2)
  from Explore_terminates_within_tree_height [of spec_tree spec_tree_height "''.''", OF rank]
  have "(\<exists>result. Explore (Suc 2) spec_tree ''.'' = Some result) = tree_height_le 2 spec_tree ''.''"
    and "(\<exists>result. Explore (Suc 1) spec_tree ''.'' = Some result) = tree_height_le 1 spec_tree ''.''"
    by blast+
  with spec_tree_Explore e2 show ?thesis by (simp add: eval_nat_numeral)
qed

text \<open>
  C2.  Names that begin with a dot are left out everywhere.  \<open>Ls\<close> returns no hidden name.
  When the directory reads return valid file names and \<open>Explore\<close> returns: no file in its
  output is hidden, and each is a file \<open>Ls\<close> lists in a visited directory; the last element
  of every directory path in its output is not hidden, and each is a visited directory;
  every visited directory other than the root has a last element that is not hidden, so a
  hidden directory is never read; and the result is the same for any tree that agrees with
  this one on the visited directories, whatever hidden directories hold.
\<close>

theorem hidden_names_never_listed_nor_visited:
  assumes names: "\<And>p directory e. readDir p = Inr directory \<Longrightarrow> e \<in> set directory \<Longrightarrow>
                    valid_name (name e)"
    and result: "Explore depth readDir root = Some (dirs, files)"
  shows "(\<forall>n \<in> set (fst (Ls readDir target)) \<union> set (snd (Ls readDir target)). \<not> IsHidden n) \<and>
         (\<forall>f \<in> set files. \<not> IsHidden f \<and> (\<exists>p \<in> visited readDir root. f \<in> set (snd (Ls readDir p)))) \<and>
         (\<forall>d \<in> set dirs. \<not> IsHidden (last_element d) \<and> d \<in> visited readDir root) \<and>
         (\<forall>p \<in> visited readDir root. p = root \<or> \<not> IsHidden (last_element p)) \<and>
         (\<forall>readDir'. (\<forall>p \<in> visited readDir root. readDir' p = readDir p) \<longrightarrow>
            Explore depth readDir' root = Some (dirs, files))"
proof -
  have sub: "\<not> IsHidden (last_element (Join q d)) \<and> Join q d \<in> visited readDir root"
    if "q \<in> visited readDir root" "d \<in> set (fst (Ls readDir q))" for q d
  proof -
    from Ls_dir_entry [OF that(2)] names have "valid_name d" "\<not> IsHidden d" by auto
    then show ?thesis using that by (simp add: last_element_Join visited.visit_sub)
  qed
  have a: "\<forall>n \<in> set (fst (Ls readDir target)) \<union> set (snd (Ls readDir target)). \<not> IsHidden n"
    using Ls_dir_entry [of _ readDir target] Ls_file_entry [of _ readDir target] by blast
  have b: "\<forall>f \<in> set files. \<not> IsHidden f \<and> (\<exists>p \<in> visited readDir root. f \<in> set (snd (Ls readDir p)))"
    using Explore_files_from_visited [OF result] Ls_file_entry [of _ readDir] by blast
  have c: "\<forall>d \<in> set dirs. \<not> IsHidden (last_element d) \<and> d \<in> visited readDir root"
    using Explore_dirs_visited [OF result] sub by blast
  have d: "\<forall>p \<in> visited readDir root. p = root \<or> \<not> IsHidden (last_element p)"
  proof
    fix p assume "p \<in> visited readDir root"
    then show "p = root \<or> \<not> IsHidden (last_element p)"
      by (cases rule: visited.cases) (use sub in auto)
  qed
  have e: "\<forall>readDir'. (\<forall>p \<in> visited readDir root. readDir' p = readDir p) \<longrightarrow>
            Explore depth readDir' root = Some (dirs, files)"
    using Explore_depends_on_visited [of readDir root _ depth] result by auto
  from a b c d e show ?thesis by blast
qed

theorem hidden_names_never_listed_nor_visited_witness:
  "Explore 2 git_tree ''.'' = Some ([''src''], [''README'', ''main.go'']) \<and>
   Ls git_tree ''.'' = ([''src''], [''README'']) \<and>
   ''.git'' \<notin> visited git_tree ''.'' \<and>
   ''.git/objects'' \<notin> visited git_tree ''.'' \<and>
   Explore 2 git_tree_pruned ''.'' = Some ([''src''], [''README'', ''main.go''])"
proof -
  have names: "valid_name (name e)" if "git_tree p = Inr directory" "e \<in> set directory"
    for p directory e
    using that by (auto simp: git_tree_def valid_name_def split: if_splits)
  have same: "\<forall>p \<in> visited git_tree ''.''. git_tree_pruned p = git_tree p"
    using git_tree_visited by (auto simp: git_tree_def git_tree_pruned_def)
  have ls: "Ls git_tree ''.'' = ([''src''], [''README''])"
    by (simp add: git_tree_def Ls_def IsHidden_def HasPrefix_def)
  have nv: "''.git'' \<notin> visited git_tree ''.''" "''.git/objects'' \<notin> visited git_tree ''.''"
    using git_tree_visited by fastforce+
  have "\<forall>readDir'. (\<forall>p \<in> visited git_tree ''.''. readDir' p = git_tree p) \<longrightarrow>
          Explore 2 readDir' ''.'' = Some ([''src''], [''README'', ''main.go''])"
    using hidden_names_never_listed_nor_visited [where readDir = git_tree and depth = 2
        and root = "''.''" and target = "''.''", OF _ git_tree_Explore] names
    by blast
  with same have "Explore 2 git_tree_pruned ''.'' = Some ([''src''], [''README'', ''main.go''])"
    by blast
  with git_tree_Explore ls nv show ?thesis by simp
qed

section \<open>File paths in the explorer's output\<close>

text \<open>
  C1.  The walk of the specification's example from the working directory: the
  directories are returned as the paths \<^verbatim>\<open>a\<close> and \<^verbatim>\<open>a/b\<close>, the files \<^verbatim>\<open>a/f1\<close> and \<^verbatim>\<open>a/b/f2\<close> as
  the bare names \<^verbatim>\<open>f1\<close> and \<^verbatim>\<open>f2\<close>: a file's name is appended as it is, at every level, and
  never joined with the directory it was found in.
\<close>

theorem Explore_returns_bare_file_names:
  "\<exists>dirs files. Explore 3 spec_tree ''.'' = Some (dirs, files) \<and>
     dirs = [''a'', ''a/b''] \<and> files = [''f1'', ''f2''] \<and>
     ''a/f1'' \<notin> set files \<and> ''a/b/f2'' \<notin> set files"
  by (simp add: spec_tree_def Ls_def IsHidden_def HasPrefix_def Join_def Clean_def
      clean_step_def numeral_3_eq_3)

text \<open>
  C5.  The walk of a tree that holds \<^verbatim>\<open>f\<close>, \<^verbatim>\<open>x/f\<close> and \<^verbatim>\<open>y/f\<close>: the three files are
  returned under the same bare name, so the file output lists \<^verbatim>\<open>f\<close> three times, while
  the directory paths are pairwise different.
\<close>

theorem Explore_repeats_bare_file_names:
  "\<exists>dirs files. Explore 3 sibling_tree ''.'' = Some (dirs, files) \<and>
     dirs = [''x'', ''x/z'', ''y''] \<and> files = [''f'', ''f'', ''g'', ''f''] \<and>
     distinct dirs \<and> \<not> distinct files"
  by (simp add: sibling_tree_def Ls_def IsHidden_def HasPrefix_def Join_def Clean_def
      clean_step_def numeral_3_eq_3)

end
